theory Spec2Isabelle
  imports Main "HOL-Library.Word" "HOL-Library.Multiset"
begin

section \<open>Machine types\<close>

text \<open>
  \<open>unsigned int\<close> is a 32-bit word: \<open>+\<close> and \<open>-\<close> wrap, \<open><\<close> and \<open>\<le>\<close> compare
  unsigned. \<open>unsigned long\<close> is taken as 64 bits (LP64); only the elapsed time is stored in
  it. The resolution of the clock is abstracted: a reading of
  \<open>std::chrono::high_resolution_clock::now()\<close> is an integer number of microseconds,
  handed to the model by its caller, and the elapsed time is the difference of two
  readings, converted to \<open>unsigned long\<close>.
\<close>

type_synonym u32 = "32 word"
type_synonym u64 = "64 word"

section \<open>The interruptible wait of the standard library\<close>

text \<open>
  \<open>std::condition_variable_any::wait(lock, stoken, pred)\<close> is specified by the C++ standard as
  \<^verbatim>\<open>
  while (!stoken.stop_requested()) {
    if (pred()) return true;
    wait(lock);
  }
  return pred();
  \<close>
  The mutex is held whenever \<open>pred\<close> is evaluated and when the call returns, so the test and
  the code after the wait form one atomic step on the guarded state. One evaluation of the
  loop, in a state where the stop flag is \<open>st\<close> and the predicate is \<open>p\<close>, either returns a
  boolean or leaves the thread asleep (\<open>None\<close>) until the state has changed.
\<close>

definition cv_wait :: "bool \<Rightarrow> bool \<Rightarrow> bool option" where
  "cv_wait st p = (if st then Some p else if p then Some True else None)"

section \<open>TIntegerQueue\<close>

text \<open>
  \<open>std::queue<unsigned int>\<close> is the list of its elements, front first. \<open>Queue.front()\<close> and
  \<open>Queue.pop()\<close> on an empty queue are undefined behaviour; the model makes that an error
  value. A call that has not returned because its thread sleeps in the wait is the value
  \<open>Inl Blocked\<close>. The calls of \<open>notify_all\<close> change no data: they wake the sleeping
  threads, which evaluate their wait again.
\<close>

datatype error = Blocked | EmptyQueueAccess | OutOfBounds

definition MaxQueueSize :: u32 where
  "MaxQueueSize = 1000"

definition SaveIntoQueue :: "u32 \<Rightarrow> bool \<Rightarrow> u32 list \<Rightarrow> error + u32 list" where
  "SaveIntoQueue element st Queue =
     (case cv_wait st (length Queue < unat MaxQueueSize) of
        None \<Rightarrow> Inl Blocked
      | Some _ \<Rightarrow> Inr (Queue @ [element]))"

definition GetFromQueue :: "bool \<Rightarrow> u32 list \<Rightarrow> error + (u32 \<times> u32 list)" where
  "GetFromQueue st Queue =
     (case cv_wait st (Queue \<noteq> []) of
        None \<Rightarrow> Inl Blocked
      | Some _ \<Rightarrow>
          (case Queue of
             [] \<Rightarrow> Inl EmptyQueueAccess
           | element # rest \<Rightarrow> Inr (element, rest)))"

text \<open>
  A schedule of the queue is the list of the calls in the order in which their critical
  sections run, each with the stop flag its wait reads. \<open>run_queue\<close> runs a schedule and
  collects the values the pops return.
\<close>

datatype queue_op = Push u32 bool | Pop bool

fun run_queue :: "queue_op list \<Rightarrow> u32 list \<times> u32 list \<Rightarrow> error + (u32 list \<times> u32 list)" where
  "run_queue [] (Queue, popped) = Inr (Queue, popped)"
| "run_queue (Push element st # ops) (Queue, popped) =
     (case SaveIntoQueue element st Queue of
        Inl e \<Rightarrow> Inl e
      | Inr Queue' \<Rightarrow> run_queue ops (Queue', popped))"
| "run_queue (Pop st # ops) (Queue, popped) =
     (case GetFromQueue st Queue of
        Inl e \<Rightarrow> Inl e
      | Inr (element, Queue') \<Rightarrow> run_queue ops (Queue', popped @ [element]))"

section \<open>TStorage\<close>

record TRandomData =
  Number :: u32
  TimeToGenerate :: u64
  Order :: u32

text \<open>
  The fields of \<open>TStorage\<close>. \<open>StopSource\<close> is the stop state of the \<open>std::stop_source\<close>
  (\<open>True\<close> once a stop has been requested), \<open>Start\<close> the clock reading kept between
  calls, \<open>Cout\<close> the lines written to \<open>std::cout\<close>, each as the thread id and the three
  values printed. \<open>DigitsInN\<close> is only the field width of those lines and is left out.
\<close>

record TStorage =
  Storage :: "TRandomData list"
  StorageSize :: u32
  Counter :: u32
  StopSource :: bool
  Start :: int
  Cout :: "(nat \<times> u32 \<times> u32 \<times> u64) list"

definition TRandomData_default :: TRandomData where
  "TRandomData_default = \<lparr>Number = 0, TimeToGenerate = 0, Order = 0\<rparr>"

text \<open>
  \<open>TStorage_ctor now storage_size\<close> is the object that a construction which completes
  leaves behind: the initialisers fill the vector with \<open>storage_size\<close> default slots and
  the body reads the clock. The constructor has no check of its argument.
\<close>

definition TStorage_ctor :: "int \<Rightarrow> u32 \<Rightarrow> TStorage" where
  "TStorage_ctor now storage_size =
     \<lparr>Storage = replicate (unat storage_size) TRandomData_default,
      StorageSize = storage_size,
      Counter = 0,
      StopSource = False,
      Start = now,
      Cout = []\<rparr>"

text \<open>
  The two ways in which the constructor does not complete. The allocation of the vector can
  throw (\<open>std::bad_alloc\<close>, \<open>std::length_error\<close>); whether it succeeds is decided by the
  environment and is the parameter \<open>allocates\<close>. The body then computes
  \<open>DigitsInN = log10(storage_size) + 1.0\<close>; for \<open>storage_size = 0\<close> this is minus infinity,
  whose conversion to \<open>int\<close> is undefined behaviour.
\<close>

datatype failure = Throws | Undefined

definition TStorage_construct :: "bool \<Rightarrow> int \<Rightarrow> u32 \<Rightarrow> failure + TStorage" where
  "TStorage_construct allocates now storage_size =
     (if \<not> allocates then Inl Throws
      else if storage_size = 0 then Inl Undefined
      else Inr (TStorage_ctor now storage_size))"

text \<open>\<open>std::stop_source::request_stop()\<close>: the stop state becomes requested and stays so.\<close>

definition request_stop :: "bool \<Rightarrow> bool" where
  "request_stop requested = True"

text \<open>
  \<open>ProcessNext tid now element\<close>: the call made by thread \<open>tid\<close> when the clock reads
  \<open>now\<close>. \<open>Storage[index]\<close> is unchecked in the source; an index beyond the vector is the
  error \<open>OutOfBounds\<close>.
\<close>

definition ProcessNext :: "nat \<Rightarrow> int \<Rightarrow> u32 \<Rightarrow> TStorage \<Rightarrow> error + TStorage" where
  "ProcessNext tid now element s =
     (if 0 < element \<and> element \<le> StorageSize s then
        (let index = unat (element - 1) in
         if length (Storage s) \<le> index then Inl OutOfBounds
         else
           (let s1 =
                  (if Number (Storage s ! index) = 0 then
                     (let counter = Counter s + 1;
                          elapsed = (word_of_int (now - Start s) :: u64)
                      in s\<lparr>Storage := (Storage s)
                                [index := \<lparr>Number = element, TimeToGenerate = elapsed,
                                            Order = counter\<rparr>],
                            Counter := counter,
                            Cout := Cout s @ [(tid, element, counter, elapsed)],
                            Start := now\<rparr>)
                   else s)
            in if Counter s1 = StorageSize s1
               then Inr (s1\<lparr>StopSource := request_stop (StopSource s1)\<rparr>)
               else Inr s1))
      else Inr s)"

text \<open>
  \<open>ProcessNext\<close> holds the mutex of the storage from its first statement to its last, so
  the calls of the consumer threads take effect one after the other: an execution is a
  sequence of calls, each with its thread, its clock reading and its element.
\<close>

type_synonym call = "nat \<times> int \<times> u32"

fun run :: "TStorage \<Rightarrow> call list \<Rightarrow> error + TStorage" where
  "run s [] = Inr s"
| "run s ((tid, now, element) # calls) =
     (case ProcessNext tid now element s of
        Inl e \<Rightarrow> Inl e
      | Inr s' \<Rightarrow> run s' calls)"

text \<open>
  How often a call executes \<open>StopSource.request_stop()\<close>: once when the element is in the
  domain and the counter, after the slot has been dealt with, equals \<open>StorageSize\<close>; the
  test stands outside the test for an empty slot. \<open>stop_calls\<close> adds this up along a run.
\<close>

definition request_stop_calls :: "u32 \<Rightarrow> TStorage \<Rightarrow> nat" where
  "request_stop_calls element s =
     (if 0 < element \<and> element \<le> StorageSize s then
        (let index = unat (element - 1) in
         if length (Storage s) \<le> index then 0
         else
           (let counter = (if Number (Storage s ! index) = 0 then Counter s + 1 else Counter s)
            in if counter = StorageSize s then 1 else 0))
      else 0)"

fun stop_calls :: "TStorage \<Rightarrow> call list \<Rightarrow> nat" where
  "stop_calls s [] = 0"
| "stop_calls s ((tid, now, element) # calls) =
     (case ProcessNext tid now element s of
        Inl e \<Rightarrow> 0
      | Inr s' \<Rightarrow> request_stop_calls element s + stop_calls s' calls)"

section \<open>TRandomizer\<close>

text \<open>
  Of the randomizer only the bounds of its distribution are kept; the generator and its
  seed are a source of random numbers outside the program. Opening the
  \<open>std::random_device\<close> can throw, which the parameter \<open>device_opens\<close> decides, and
  \<open>std::uniform_int_distribution(first, last)\<close> requires \<open>first \<le> last\<close>: otherwise the
  behaviour is undefined.
\<close>

record TRandomizer =
  Dist :: "u32 \<times> u32"

definition TRandomizer_ctor :: "bool \<Rightarrow> u32 \<Rightarrow> u32 \<Rightarrow> failure + TRandomizer" where
  "TRandomizer_ctor device_opens first lst =
     (if \<not> device_opens then Inl Throws
      else if lst < first then Inl Undefined
      else Inr \<lparr>Dist = (first, lst)\<rparr>)"

section \<open>main: the argument check\<close>

text \<open>
  \<open>main\<close> up to the point where the worker threads are started. Its argument is missing
  (\<open>argc < 2\<close>), not a number in the range of \<open>long\<close> (\<open>std::stol\<close> throws), or parsed.
  \<open>RAND_MAX\<close> is fixed by the C library and is a parameter here. Every path of \<open>main\<close>
  that returns early prints a message and returns 0: "No arguments provided." for a
  missing argument, "Bad argument" for a number outside \<open>[1, RAND_MAX]\<close>, and "Bad
  argument" again from the handler \<open>catch (...)\<close>, which receives the exception of
  \<open>std::stol\<close> and any exception thrown by a constructor. Otherwise \<open>main\<close> has
  constructed the empty queue, the storage and the randomizer over \<open>[1, element_number]\<close>,
  both from the number converted to \<open>unsigned int\<close>.
\<close>

datatype argument = NoArgument | NotANumber | Parsed int

datatype message = No_arguments_provided | Bad_argument

datatype main_exit = Returns message int | UndefinedBehaviour

definition main_setup ::
  "int \<Rightarrow> bool \<Rightarrow> bool \<Rightarrow> int \<Rightarrow> argument \<Rightarrow> main_exit + (u32 list \<times> TStorage \<times> TRandomizer)" where
  "main_setup rand_max allocates device_opens now arg =
     (case arg of
        NoArgument \<Rightarrow> Inl (Returns No_arguments_provided 0)
      | NotANumber \<Rightarrow> Inl (Returns Bad_argument 0)
      | Parsed element_number \<Rightarrow>
          if element_number \<le> 0 \<or> element_number > rand_max
          then Inl (Returns Bad_argument 0)
          else
            (case TStorage_construct allocates now (word_of_int element_number) of
               Inl Throws \<Rightarrow> Inl (Returns Bad_argument 0)
             | Inl Undefined \<Rightarrow> Inl UndefinedBehaviour
             | Inr storage \<Rightarrow>
                 (case TRandomizer_ctor device_opens 1 (word_of_int element_number) of
                    Inl Throws \<Rightarrow> Inl (Returns Bad_argument 0)
                  | Inl Undefined \<Rightarrow> Inl UndefinedBehaviour
                  | Inr rzr \<Rightarrow> Inr ([], storage, rzr))))"

section \<open>Notions used in the statements\<close>

text \<open>A slot is filled when its \<open>Number\<close> is not the sentinel 0.\<close>

definition filled :: "TRandomData \<Rightarrow> bool" where
  "filled d = (Number d \<noteq> 0)"

text \<open>The \<open>Order\<close> values of the filled slots, in slot order.\<close>

definition orders :: "TStorage \<Rightarrow> nat list" where
  "orders s = map (\<lambda>d. unat (Order d)) (filter filled (Storage s))"

text \<open>The elements passed by a sequence of calls.\<close>

definition elements :: "call list \<Rightarrow> u32 list" where
  "elements calls = map (\<lambda>(tid, now, element). element) calls"

text \<open>The values of the domain \<open>[1, n]\<close>.\<close>

definition in_domain :: "u32 \<Rightarrow> u32 \<Rightarrow> bool" where
  "in_domain n v = (0 < v \<and> v \<le> n)"

text \<open>The number of calls of a run in which the stop state changes from not requested to
  requested.\<close>

fun stop_transitions :: "TStorage \<Rightarrow> call list \<Rightarrow> nat" where
  "stop_transitions s [] = 0"
| "stop_transitions s ((tid, now, element) # calls) =
     (case ProcessNext tid now element s of
        Inl e \<Rightarrow> 0
      | Inr s' \<Rightarrow>
          (if \<not> StopSource s \<and> StopSource s' then 1 else 0) + stop_transitions s' calls)"

text \<open>The stop flag read by the wait of a queue operation.\<close>

definition stop_flag :: "queue_op \<Rightarrow> bool" where
  "stop_flag op = (case op of Push element st \<Rightarrow> st | Pop st \<Rightarrow> st)"

text \<open>
  The invariant of the storage: the vector has \<open>StorageSize\<close> slots, slot \<open>i\<close> is empty
  or holds the value \<open>i + 1\<close>, the orders handed out are \<open>1 .. Counter\<close>, each once, and a
  stop has been requested exactly when all slots of a non-empty table are filled.
\<close>

definition TStorage_inv :: "TStorage \<Rightarrow> bool" where
  "TStorage_inv s =
     (length (Storage s) = unat (StorageSize s) \<and>
      (\<forall>i < length (Storage s).
          Number (Storage s ! i) = 0 \<or> Number (Storage s ! i) = of_nat (Suc i)) \<and>
      mset (orders s) = mset [1 ..< Suc (unat (Counter s))] \<and>
      (StopSource s = (Counter s = StorageSize s \<and> StorageSize s \<noteq> 0)))"

text \<open>The state after a call that records its element.\<close>

definition fill :: "nat \<Rightarrow> int \<Rightarrow> u32 \<Rightarrow> TStorage \<Rightarrow> TStorage" where
  "fill tid now element s =
     s\<lparr>Storage := (Storage s)
          [unat (element - 1) :=
             \<lparr>Number = element, TimeToGenerate = word_of_int (now - Start s),
              Order = Counter s + 1\<rparr>],
       Counter := Counter s + 1,
       Cout := Cout s @ [(tid, element, Counter s + 1, word_of_int (now - Start s))],
       Start := now,
       StopSource := (Counter s + 1 = StorageSize s)\<rparr>"

section \<open>Arithmetic of indices and counters\<close>

lemma index_in_range:
  fixes element :: u32
  assumes "0 < element" "element \<le> n"
  shows "unat (element - 1) < unat n" "of_nat (Suc (unat (element - 1))) = element"
proof -
  from assms(1) have nz: "element \<noteq> 0" by auto
  then have pos: "0 < unat element" by (simp add: unat_gt_0)
  have dec: "unat (element - 1) = unat element - 1"
    using nz by (rule unat_minus_one)
  from assms(2) have "unat element \<le> unat n" by (simp add: word_le_nat_alt)
  with pos dec show "unat (element - 1) < unat n" by simp
  from pos dec have "Suc (unat (element - 1)) = unat element" by simp
  then show "of_nat (Suc (unat (element - 1))) = element" by simp
qed

lemma counter_succ:
  fixes c n :: u32
  assumes "unat c < unat n"
  shows "unat (c + 1) = Suc (unat c)"
proof -
  have "unat n < 2 ^ 32" using unsigned_less [of n, where 'a = nat] by simp
  with assms have "unat c + 1 < 2 ^ 32" by simp
  then show ?thesis by (simp add: unat_word_ariths)
qed

lemma mset_filter_update:
  assumes "i < length xs" "\<not> P (xs ! i)" "P d"
  shows "mset (filter P (xs[i := d])) = add_mset d (mset (filter P xs))"
  using assms by (simp add: mset_update)

lemma filter_length_less:
  assumes "i < length xs" "\<not> P (xs ! i)"
  shows "length (filter P xs) < length xs"
  using assms by (meson length_filter_less nth_mem)

lemma orders_length:
  assumes "mset (orders s) = mset [1 ..< Suc (unat (Counter s))]"
  shows "length (filter filled (Storage s)) = unat (Counter s)"
proof -
  have "length (orders s) = length [1 ..< Suc (unat (Counter s))]"
    using assms by (rule mset_eq_length)
  then show ?thesis by (simp add: orders_def)
qed

lemma counter_below_size:
  assumes "TStorage_inv s" "i < length (Storage s)" "Number (Storage s ! i) = 0"
  shows "unat (Counter s) < unat (StorageSize s)"
proof -
  have "\<not> filled (Storage s ! i)" using assms(3) by (simp add: filled_def)
  with assms(2) have "length (filter filled (Storage s)) < length (Storage s)"
    by (rule filter_length_less)
  moreover have "length (filter filled (Storage s)) = unat (Counter s)"
    using assms(1) by (simp add: TStorage_inv_def orders_length)
  ultimately show ?thesis using assms(1) by (simp add: TStorage_inv_def)
qed

lemma counter_le_size:
  assumes "TStorage_inv s"
  shows "unat (Counter s) \<le> unat (StorageSize s)"
proof -
  have "length (filter filled (Storage s)) \<le> length (Storage s)" by simp
  moreover have "length (filter filled (Storage s)) = unat (Counter s)"
    using assms by (simp add: TStorage_inv_def orders_length)
  ultimately show ?thesis using assms by (simp add: TStorage_inv_def)
qed

section \<open>The invariant of the storage\<close>

text \<open>What a call does in a state that satisfies the invariant, case by case.\<close>

lemma ProcessNext_outside:
  assumes "element = 0 \<or> StorageSize s < element"
  shows "ProcessNext tid now element s = Inr s"
  using assms by (auto simp: ProcessNext_def)

lemma ProcessNext_duplicate:
  assumes "TStorage_inv s" "0 < element" "element \<le> StorageSize s"
    and "Number (Storage s ! unat (element - 1)) \<noteq> 0"
  shows "ProcessNext tid now element s = Inr s"
proof -
  have idx: "unat (element - 1) < length (Storage s)"
    using assms(1) index_in_range(1) [OF assms(2,3)] by (simp add: TStorage_inv_def)
  have nz: "StorageSize s \<noteq> 0" using assms(2,3) by auto
  have "Counter s = StorageSize s \<Longrightarrow> StopSource s"
    using assms(1) nz by (simp add: TStorage_inv_def)
  then show ?thesis
    using assms(2,3,4) idx by (auto simp: ProcessNext_def request_stop_def)
qed

lemma ProcessNext_fill:
  assumes "TStorage_inv s" "0 < element" "element \<le> StorageSize s"
    and "Number (Storage s ! unat (element - 1)) = 0"
  shows "ProcessNext tid now element s = Inr (fill tid now element s)"
proof -
  have idx: "unat (element - 1) < length (Storage s)"
    using assms(1) index_in_range(1) [OF assms(2,3)] by (simp add: TStorage_inv_def)
  have "unat (Counter s) < unat (StorageSize s)"
    using assms(1) idx assms(4) by (rule counter_below_size)
  then have "Counter s \<noteq> StorageSize s" by auto
  then have "\<not> StopSource s" using assms(1) by (simp add: TStorage_inv_def)
  then show ?thesis
    using assms(2,3,4) idx
    by (auto simp: ProcessNext_def request_stop_def fill_def Let_def)
qed


lemma inv_ctor: "TStorage_inv (TStorage_ctor now n)"
  by (simp add: TStorage_inv_def TStorage_ctor_def orders_def filled_def
      TRandomData_default_def)

lemma inv_fill:
  assumes "TStorage_inv s" "0 < element" "element \<le> StorageSize s"
    and "Number (Storage s ! unat (element - 1)) = 0"
  shows "TStorage_inv (fill tid now element s)"
proof -
  let ?i = "unat (element - 1)"
  let ?d = "\<lparr>Number = element, TimeToGenerate = word_of_int (now - Start s),
             Order = Counter s + 1\<rparr>"
  have len: "length (Storage s) = unat (StorageSize s)"
    using assms(1) by (simp add: TStorage_inv_def)
  have idx: "?i < length (Storage s)"
    using len index_in_range(1) [OF assms(2,3)] by simp
  have nz: "element \<noteq> 0" using assms(2) by auto
  have below: "unat (Counter s) < unat (StorageSize s)"
    using assms(1) idx assms(4) by (rule counter_below_size)
  have suc: "unat (Counter s + 1) = Suc (unat (Counter s))"
    using below by (rule counter_succ)
  have numbers: "\<forall>j < length (Storage s).
      Number ((Storage s)[?i := ?d] ! j) = 0 \<or>
      Number ((Storage s)[?i := ?d] ! j) = of_nat (Suc j)"
  proof (intro allI impI)
    fix j assume j: "j < length (Storage s)"
    show "Number ((Storage s)[?i := ?d] ! j) = 0 \<or>
      Number ((Storage s)[?i := ?d] ! j) = of_nat (Suc j)"
    proof (cases "j = ?i")
      case True
      then show ?thesis
        using idx index_in_range(2) [OF assms(2,3)] by simp
    next
      case False
      then show ?thesis
        using assms(1) j by (simp add: TStorage_inv_def)
    qed
  qed
  have "mset (filter filled ((Storage s)[?i := ?d])) =
      add_mset ?d (mset (filter filled (Storage s)))"
    using idx assms(4) nz by (intro mset_filter_update) (simp_all add: filled_def)
  then have "mset (map (\<lambda>d. unat (Order d)) (filter filled ((Storage s)[?i := ?d]))) =
      add_mset (unat (Counter s + 1)) (mset (orders s))"
    by (simp add: orders_def)
  also have "\<dots> = mset [1 ..< Suc (unat (Counter s + 1))]"
    using assms(1) suc by (simp add: TStorage_inv_def)
  finally have ords: "mset (orders (fill tid now element s)) =
      mset [1 ..< Suc (unat (Counter (fill tid now element s)))]"
    by (simp add: orders_def fill_def)
  have "StorageSize s \<noteq> 0" using assms(2,3) by auto
  then show ?thesis
    using len numbers ords by (simp add: TStorage_inv_def fill_def)
qed

lemma inv_ProcessNext:
  assumes "TStorage_inv s"
  shows "\<exists>s'. ProcessNext tid now element s = Inr s' \<and> TStorage_inv s'"
proof (cases "0 < element \<and> element \<le> StorageSize s")
  case False
  then have "element = 0 \<or> StorageSize s < element" by (auto simp: not_le word_gt_0)
  then have "ProcessNext tid now element s = Inr s" by (rule ProcessNext_outside)
  with assms show ?thesis by simp
next
  case True
  show ?thesis
  proof (cases "Number (Storage s ! unat (element - 1)) = 0")
    case empty: True
    with assms True show ?thesis
      by (simp add: ProcessNext_fill inv_fill)
  next
    case False
    with assms True show ?thesis
      by (simp add: ProcessNext_duplicate)
  qed
qed

lemma run_append:
  "run s (xs @ ys) = (case run s xs of Inl e \<Rightarrow> Inl e | Inr s' \<Rightarrow> run s' ys)"
  by (induction xs arbitrary: s) (auto split: sum.splits)

lemma inv_run:
  assumes "TStorage_inv s"
  shows "\<exists>s'. run s calls = Inr s' \<and> TStorage_inv s'"
  using assms
proof (induction calls arbitrary: s)
  case Nil
  then show ?case by simp
next
  case (Cons c calls)
  obtain tid now element where c: "c = (tid, now, element)" by (cases c)
  from Cons.prems obtain s1 where
    s1: "ProcessNext tid now element s = Inr s1" "TStorage_inv s1"
    using inv_ProcessNext by blast
  from Cons.IH [OF s1(2)] show ?case using c s1(1) by simp
qed

section \<open>Evaluation of concrete runs\<close>

lemma list_update_numeral:
  "(x # xs)[numeral k := y] = x # xs[pred_numeral k := y]"
  by (simp add: numeral_eq_Suc)

lemma replicate_numeral':
  "replicate (numeral k) x = x # replicate (pred_numeral k) x"
  by (simp add: numeral_eq_Suc)

lemmas eval_simps = ProcessNext_def TStorage_ctor_def TRandomData_default_def request_stop_def
      Let_def list_update_numeral replicate_numeral'

section \<open>Runs of the storage\<close>

lemma index_inj:
  fixes v w :: u32
  assumes "0 < v" "0 < w" "unat (v - 1) = unat (w - 1)"
  shows "v = w"
proof -
  have "v \<noteq> 0" "w \<noteq> 0" using assms(1,2) by auto
  then have "unat v - 1 = unat w - 1" "0 < unat v" "0 < unat w"
    using assms(3) by (simp_all add: unat_minus_one unat_gt_0)
  then have "unat v = unat w" by simp
  then show ?thesis by (simp add: word_unat_eq_iff)
qed

lemma ProcessNext_StorageSize:
  assumes "ProcessNext tid now element s = Inr s'"
  shows "StorageSize s' = StorageSize s"
  using assms by (auto simp: ProcessNext_def Let_def split: if_splits)

lemma run_StorageSize:
  assumes "run s calls = Inr s'"
  shows "StorageSize s' = StorageSize s"
  using assms
proof (induction calls arbitrary: s)
  case Nil
  then show ?case by simp
next
  case (Cons c calls)
  obtain tid now element where c: "c = (tid, now, element)" by (cases c)
  from Cons.prems c obtain s1 where
    s1: "ProcessNext tid now element s = Inr s1" "run s1 calls = Inr s'"
    by (auto split: sum.splits)
  from Cons.IH [OF s1(2)] ProcessNext_StorageSize [OF s1(1)] show ?case by simp
qed

text \<open>After a call, a slot in the domain is filled exactly when it was filled before or the
  call carried its value.\<close>

lemma ProcessNext_filled_iff:
  assumes "TStorage_inv s" "0 < v" "v \<le> StorageSize s"
    and "ProcessNext tid now element s = Inr s'"
  shows "(Number (Storage s' ! unat (v - 1)) \<noteq> 0) =
         (Number (Storage s ! unat (v - 1)) \<noteq> 0 \<or> element = v)"
proof (cases "0 < element \<and> element \<le> StorageSize s")
  case False
  then have out: "element = 0 \<or> StorageSize s < element" by (auto simp: not_le word_gt_0)
  then have "s' = s" using assms(4) by (simp add: ProcessNext_outside)
  moreover have "element \<noteq> v" using out assms(2,3) by auto
  ultimately show ?thesis by simp
next
  case True
  have vidx: "unat (v - 1) < length (Storage s)"
    using assms(1) index_in_range(1) [OF assms(2,3)] by (simp add: TStorage_inv_def)
  show ?thesis
  proof (cases "Number (Storage s ! unat (element - 1)) = 0")
    case False
    then have "s' = s" using assms(1,4) True by (simp add: ProcessNext_duplicate)
    with False show ?thesis by auto
  next
    case empty: True
    then have s': "s' = fill tid now element s"
      using assms(1,4) True by (simp add: ProcessNext_fill)
    show ?thesis
    proof (cases "element = v")
      case True
      then show ?thesis using s' vidx assms(2) by (simp add: fill_def)
    next
      case False
      then have "unat (element - 1) \<noteq> unat (v - 1)"
        using index_inj [of element v] True assms(2) by auto
      then show ?thesis using s' False by (simp add: fill_def)
    qed
  qed
qed

lemma run_filled_iff:
  assumes "TStorage_inv s" "0 < v" "v \<le> StorageSize s" "run s calls = Inr s'"
  shows "(Number (Storage s' ! unat (v - 1)) \<noteq> 0) =
         (Number (Storage s ! unat (v - 1)) \<noteq> 0 \<or> v \<in> set (elements calls))"
  using assms
proof (induction calls arbitrary: s)
  case Nil
  then show ?case by (simp add: elements_def)
next
  case (Cons c calls)
  obtain tid now element where c: "c = (tid, now, element)" by (cases c)
  from Cons.prems(4) c obtain s1 where
    s1: "ProcessNext tid now element s = Inr s1" "run s1 calls = Inr s'"
    by (auto split: sum.splits)
  have inv1: "TStorage_inv s1"
    using inv_ProcessNext [OF Cons.prems(1), of tid now element] s1(1) by auto
  have size1: "StorageSize s1 = StorageSize s" using s1(1) by (rule ProcessNext_StorageSize)
  have "(Number (Storage s' ! unat (v - 1)) \<noteq> 0) =
      (Number (Storage s1 ! unat (v - 1)) \<noteq> 0 \<or> v \<in> set (elements calls))"
    using Cons.IH [OF inv1 Cons.prems(2) _ s1(2)] Cons.prems(3) size1 by simp
  also have "(Number (Storage s1 ! unat (v - 1)) \<noteq> 0) =
      (Number (Storage s ! unat (v - 1)) \<noteq> 0 \<or> element = v)"
    using Cons.prems(1,2,3) s1(1) by (rule ProcessNext_filled_iff)
  finally show ?case using c by (auto simp: elements_def)
qed

lemma ctor_empty:
  assumes "i < unat n"
  shows "Number (Storage (TStorage_ctor now n) ! i) = 0"
  using assms by (simp add: TStorage_ctor_def TRandomData_default_def)

text \<open>The stop state is never reset, and along a run it is switched on at most once.\<close>

lemma ProcessNext_stop_mono:
  assumes "ProcessNext tid now element s = Inr s'" "StopSource s"
  shows "StopSource s'"
  using assms by (auto simp: ProcessNext_def Let_def request_stop_def split: if_splits)

lemma run_stop_mono:
  assumes "run s calls = Inr s'" "StopSource s"
  shows "StopSource s'"
  using assms
proof (induction calls arbitrary: s)
  case Nil
  then show ?case by simp
next
  case (Cons c calls)
  obtain tid now element where c: "c = (tid, now, element)" by (cases c)
  from Cons.prems(1) c obtain s1 where
    s1: "ProcessNext tid now element s = Inr s1" "run s1 calls = Inr s'"
    by (auto split: sum.splits)
  from Cons.IH [OF s1(2)] ProcessNext_stop_mono [OF s1(1) Cons.prems(2)] show ?case by simp
qed

lemma stop_transitions_count:
  assumes "run s calls = Inr s'"
  shows "stop_transitions s calls = (if \<not> StopSource s \<and> StopSource s' then 1 else 0)"
  using assms
proof (induction calls arbitrary: s)
  case Nil
  then show ?case by simp
next
  case (Cons c calls)
  obtain tid now element where c: "c = (tid, now, element)" by (cases c)
  from Cons.prems(1) c obtain s1 where
    s1: "ProcessNext tid now element s = Inr s1" "run s1 calls = Inr s'"
    by (auto split: sum.splits)
  have mono1: "StopSource s \<Longrightarrow> StopSource s1" using s1(1) by (rule ProcessNext_stop_mono)
  have mono2: "StopSource s1 \<Longrightarrow> StopSource s'" using s1(2) by (rule run_stop_mono)
  show ?case using c s1(1) Cons.IH [OF s1(2)] mono1 mono2 by auto
qed

lemma ProcessNext_stop_switch:
  assumes "TStorage_inv s" "ProcessNext tid now element s = Inr s'"
  shows "(\<not> StopSource s \<and> StopSource s') =
         (Counter s \<noteq> StorageSize s \<and> Counter s' = StorageSize s)"
proof -
  have inv': "TStorage_inv s'"
    using inv_ProcessNext [OF assms(1), of tid now element] assms(2) by auto
  have size: "StorageSize s' = StorageSize s" using assms(2) by (rule ProcessNext_StorageSize)
  have "Counter s' \<noteq> Counter s \<Longrightarrow> StorageSize s \<noteq> 0"
    using assms(2) by (auto simp: ProcessNext_def Let_def split: if_splits)
  then show ?thesis
    using assms(1) inv' size by (auto simp: TStorage_inv_def)
qed

lemma run_ctor:
  "\<exists>s. run (TStorage_ctor now0 n) calls = Inr s \<and> TStorage_inv s \<and> StorageSize s = n"
proof -
  obtain s where s: "run (TStorage_ctor now0 n) calls = Inr s" "TStorage_inv s"
    using inv_run [OF inv_ctor] by blast
  have "StorageSize s = StorageSize (TStorage_ctor now0 n)" using s(1) by (rule run_StorageSize)
  then have "StorageSize s = n" by (simp add: TStorage_ctor_def)
  with s show ?thesis by blast
qed

section \<open>The counter and the values seen\<close>

lemma value_of_index:
  fixes n :: u32
  assumes "i < unat n"
  shows "0 < (of_nat (Suc i) :: u32)" "(of_nat (Suc i) :: u32) \<le> n"
    "unat ((of_nat (Suc i) :: u32) - 1) = i"
proof -
  define v :: u32 where "v = of_nat (Suc i)"
  have "unat n < 2 ^ 32" using unsigned_less [of n, where 'a = nat] by simp
  with assms have small: "Suc i < 2 ^ 32" by simp
  have "unat v = Suc i mod 2 ^ LENGTH(32)" unfolding v_def by (rule unat_of_nat)
  also have "\<dots> = Suc i" using small by simp
  finally have val: "unat v = Suc i" .
  then have nz: "v \<noteq> 0" by auto
  then have "0 < v" by (simp add: word_gt_0)
  moreover have "v \<le> n" using val assms by (simp add: word_le_nat_alt)
  moreover have "unat (v - 1) = unat v - 1" using nz by (rule unat_minus_one)
  then have "unat (v - 1) = i" using val by simp
  ultimately show "0 < (of_nat (Suc i) :: u32)" "(of_nat (Suc i) :: u32) \<le> n"
    "unat ((of_nat (Suc i) :: u32) - 1) = i"
    unfolding v_def by blast+
qed

lemma filled_indices_values:
  assumes "TStorage_inv s" "StorageSize s = n"
    and seen: "\<And>v. 0 < v \<Longrightarrow> v \<le> n \<Longrightarrow>
       (Number (Storage s ! unat (v - 1)) \<noteq> 0) = (v \<in> set vs)"
  shows "length (filter filled (Storage s)) = card (set (filter (in_domain n) vs))"
proof -
  let ?A = "{i. i < length (Storage s) \<and> filled (Storage s ! i)}"
  let ?B = "set (filter (in_domain n) vs)"
  let ?f = "\<lambda>v::u32. unat (v - 1)"
  have len: "length (Storage s) = unat n" using assms(1,2) by (simp add: TStorage_inv_def)
  have inj: "inj_on ?f ?B"
    by (rule inj_onI) (auto simp: in_domain_def intro: index_inj)
  have "?f ` ?B = ?A"
  proof (intro set_eqI iffI)
    fix i assume "i \<in> ?f ` ?B"
    then obtain v where v: "v \<in> set vs" "0 < v" "v \<le> n" "i = unat (v - 1)"
      by (auto simp: in_domain_def)
    from index_in_range(1) [OF v(2,3)] have "i < length (Storage s)" using v(4) len by simp
    moreover have "filled (Storage s ! i)" using seen [OF v(2,3)] v(1,4) by (simp add: filled_def)
    ultimately show "i \<in> ?A" by simp
  next
    fix i assume "i \<in> ?A"
    then have i: "i < unat n" "Number (Storage s ! i) \<noteq> 0" using len by (simp_all add: filled_def)
    let ?v = "of_nat (Suc i) :: u32"
    note v = value_of_index [OF i(1)]
    from seen [OF v(1,2)] i(2) v(3) have "?v \<in> set vs" by simp
    then have "?v \<in> ?B" using v(1,2) by (simp add: in_domain_def)
    then have "?f ?v \<in> ?f ` ?B" by (rule imageI)
    then show "i \<in> ?f ` ?B" using v(3) by simp
  qed
  then have "card ?A = card (?f ` ?B)" by simp
  also have "\<dots> = card ?B" using inj by (rule card_image)
  finally show ?thesis by (simp add: length_filter_conv_card)
qed

lemma run_ctor_seen:
  assumes "run (TStorage_ctor now0 n) calls = Inr s" "0 < v" "v \<le> n"
  shows "(Number (Storage s ! unat (v - 1)) \<noteq> 0) = (v \<in> set (elements calls))"
proof -
  have "v \<le> StorageSize (TStorage_ctor now0 n)" using assms(3) by (simp add: TStorage_ctor_def)
  from run_filled_iff [OF inv_ctor assms(2) this assms(1)]
  show ?thesis using index_in_range(1) [OF assms(2,3)] by (simp add: ctor_empty)
qed

lemma counter_counts_distinct_values:
  assumes "run (TStorage_ctor now0 n) calls = Inr s" "TStorage_inv s" "StorageSize s = n"
  shows "unat (Counter s) = card (set (filter (in_domain n) (elements calls)))"
proof -
  have "length (filter filled (Storage s)) = card (set (filter (in_domain n) (elements calls)))"
    using assms(2,3) run_ctor_seen [OF assms(1)] by (rule filled_indices_values)
  moreover have "length (filter filled (Storage s)) = unat (Counter s)"
    using assms(2) by (simp add: TStorage_inv_def orders_length)
  ultimately show ?thesis by simp
qed

lemma request_stop_calls_result:
  assumes "TStorage_inv s" "ProcessNext tid now element s = Inr s'"
  shows "request_stop_calls element s =
         (if 0 < element \<and> element \<le> StorageSize s \<and> StopSource s' then 1 else 0)"
proof (cases "0 < element \<and> element \<le> StorageSize s")
  case False
  then show ?thesis by (auto simp: request_stop_calls_def)
next
  case True
  have idx: "unat (element - 1) < length (Storage s)"
    using assms(1) index_in_range(1) [of element "StorageSize s"] True
    by (simp add: TStorage_inv_def)
  have nz: "StorageSize s \<noteq> 0" using True by auto
  show ?thesis
  proof (cases "Number (Storage s ! unat (element - 1)) = 0")
    case False
    then have "s' = s" using assms True by (simp add: ProcessNext_duplicate)
    then show ?thesis
      using True idx False assms(1) nz
      by (simp add: request_stop_calls_def TStorage_inv_def)
  next
    case empty: True
    then have "s' = fill tid now element s" using assms True by (simp add: ProcessNext_fill)
    then show ?thesis
      using True idx empty by (simp add: request_stop_calls_def fill_def)
  qed
qed

lemma stop_switch_nth_value:
  assumes "run (TStorage_ctor now0 n) calls = Inr s" "TStorage_inv s" "StorageSize s = n"
    and "ProcessNext tid now element s = Inr s'"
  shows "(\<not> StopSource s \<and> StopSource s') =
         (unat (Counter s) + 1 = unat n \<and> in_domain n element \<and>
          element \<notin> set (elements calls))"
proof (cases "0 < element \<and> element \<le> n")
  case False
  then have "element = 0 \<or> StorageSize s < element"
    using assms(3) by (auto simp: not_le word_gt_0)
  then have "s' = s" using assms(4) by (simp add: ProcessNext_outside)
  with False show ?thesis by (auto simp: in_domain_def)
next
  case True
  then have range: "0 < element" "element \<le> StorageSize s" using assms(3) by simp_all
  have seen: "(Number (Storage s ! unat (element - 1)) \<noteq> 0) = (element \<in> set (elements calls))"
    using run_ctor_seen [OF assms(1), of element] True by simp
  have idx: "unat (element - 1) < length (Storage s)"
    using assms(2) index_in_range(1) [OF range] by (simp add: TStorage_inv_def)
  show ?thesis
  proof (cases "element \<in> set (elements calls)")
    case dup: True
    with seen have "Number (Storage s ! unat (element - 1)) \<noteq> 0" by simp
    then have "s' = s" using assms(2,4) range by (simp add: ProcessNext_duplicate)
    with dup show ?thesis by auto
  next
    case new: False
    with seen have empty: "Number (Storage s ! unat (element - 1)) = 0" by simp
    then have s': "s' = fill tid now element s" using assms(2,4) range by (simp add: ProcessNext_fill)
    have below: "unat (Counter s) < unat (StorageSize s)"
      using assms(2) idx empty by (rule counter_below_size)
    then have "Counter s \<noteq> StorageSize s" by auto
    then have nostop: "\<not> StopSource s" using assms(2) by (simp add: TStorage_inv_def)
    have "(Counter s + 1 = n) = (unat (Counter s + 1) = unat n)" by (simp add: word_unat_eq_iff)
    also have "\<dots> = (unat (Counter s) + 1 = unat n)" using below by (simp add: counter_succ)
    finally show ?thesis using s' nostop new True assms(3) by (simp add: fill_def in_domain_def)
  qed
qed

lemma size_of_argument:
  assumes "rand_max \<le> 2147483647" "0 < k" "k \<le> rand_max"
  shows "uint (word_of_int k :: u32) = k" "(word_of_int k :: u32) \<noteq> 0"
    "(1::u32) \<le> word_of_int k"
proof -
  have "uint (word_of_int k :: u32) = k mod 2 ^ LENGTH(32)" by (rule uint_word_of_int)
  also have "\<dots> = k" using assms by simp
  finally show conv: "uint (word_of_int k :: u32) = k" .
  then have "uint (word_of_int k :: u32) \<noteq> 0" using assms(2) by simp
  then show nz: "(word_of_int k :: u32) \<noteq> 0" by auto
  have "uint (1 :: u32) \<le> uint (word_of_int k :: u32)" using conv assms(2) by simp
  then show "(1::u32) \<le> word_of_int k" by (simp add: word_le_def)
qed

section \<open>Schedules of the queue\<close>

lemma SaveIntoQueue_cases:
  "SaveIntoQueue element st Queue =
     (if \<not> st \<and> unat MaxQueueSize \<le> length Queue then Inl Blocked
      else Inr (Queue @ [element]))"
  by (simp add: SaveIntoQueue_def cv_wait_def)

lemma GetFromQueue_cases:
  "GetFromQueue st Queue =
     (case Queue of
        [] \<Rightarrow> if st then Inl EmptyQueueAccess else Inl Blocked
      | element # rest \<Rightarrow> Inr (element, rest))"
  by (simp add: GetFromQueue_def cv_wait_def split: list.splits)

lemma run_queue_append:
  "run_queue (xs @ ys) qp =
     (case run_queue xs qp of Inl e \<Rightarrow> Inl e | Inr qp' \<Rightarrow> run_queue ys qp')"
proof (induction xs qp rule: run_queue.induct)
  case (1 Queue popped)
  then show ?case by simp
next
  case (2 element st ops Queue popped)
  then show ?case by (simp split: sum.splits)
next
  case (3 st ops Queue popped)
  then show ?case by (simp split: sum.splits prod.splits)
qed

lemma run_queue_pushes:
  assumes "length Queue + k \<le> unat MaxQueueSize"
  shows "run_queue (replicate k (Push element False)) (Queue, popped) =
         Inr (Queue @ replicate k element, popped)"
  using assms
proof (induction k arbitrary: Queue)
  case 0
  then show ?case by simp
next
  case (Suc k)
  from Suc.prems have step: "SaveIntoQueue element False Queue = Inr (Queue @ [element])"
    by (simp add: SaveIntoQueue_cases)
  from Suc.prems have "length (Queue @ [element]) + k \<le> unat MaxQueueSize" by simp
  from Suc.IH [OF this] step show ?case by (simp add: replicate_app_Cons_same)
qed

lemma queue_bound_without_cancellation:
  assumes "list_all (\<lambda>op. \<not> stop_flag op) ops" "length Queue \<le> unat MaxQueueSize"
  shows "case run_queue ops (Queue, popped) of
           Inl e \<Rightarrow> e = Blocked
         | Inr (Queue', popped') \<Rightarrow> length Queue' \<le> unat MaxQueueSize"
  using assms
proof (induction ops "(Queue, popped)" arbitrary: Queue popped rule: run_queue.induct)
  case (1 Queue popped)
  then show ?case by simp
next
  case (2 element st ops Queue popped)
  then show ?case
    by (auto simp: SaveIntoQueue_cases stop_flag_def split: sum.splits if_splits)
next
  case (3 st ops Queue popped)
  then show ?case
    by (cases Queue) (auto simp: GetFromQueue_cases stop_flag_def split: sum.splits)
qed

section \<open>The queue under cancellation\<close>

text \<open>
  Both queue operations discard the boolean that the interruptible wait returns. The three
  statements below evaluate the code where the wait ends because a stop was requested
  while its predicate is still false.
\<close>

text \<open>
  C1. Push (\<open>SaveIntoQueue\<close>) blocks until the queue is below \<open>MaxQueueSize\<close> or
  cancellation is observed; on success it appends the item at the tail; if cancellation
  fires while it is blocked it returns without enqueuing and the queue is unchanged.

  The code at a full queue of 1000 items: without a stop request the call is blocked; once
  a stop is requested the same call returns and has appended the item, so the queue holds
  1001 items, the last being the new one.
\<close>

theorem C1_push_enqueues_when_cancelled:
  "SaveIntoQueue 7 False (replicate 1000 0) = Inl Blocked \<and>
   SaveIntoQueue 7 True (replicate 1000 0) = Inr (replicate 1000 0 @ [7])"
  by (simp add: SaveIntoQueue_def cv_wait_def MaxQueueSize_def)

text \<open>
  C2. Pop (\<open>GetFromQueue\<close>) blocks until the queue is non-empty or cancellation is
  observed; on success it removes and returns the head; if cancellation fires while it is
  blocked on the empty queue it returns Cancelled, so the head of an empty queue is never
  read or removed.

  The code at the empty queue: without a stop request the call is blocked; once a stop is
  requested the same call goes on to \<open>Queue.front()\<close> and \<open>Queue.pop()\<close> on the empty
  queue.
\<close>

theorem C2_pop_reads_empty_queue_when_cancelled:
  "GetFromQueue False [] = Inl Blocked \<and> GetFromQueue True [] = Inl EmptyQueueAccess"
  by (simp add: GetFromQueue_def cv_wait_def)

text \<open>
  C3. For every sequence of Push and Pop operations, with any cancellation behaviour, the
  queue length stays between 0 and \<open>MaxQueueSize = 1000\<close>; a Push never makes the length
  exceed \<open>MaxQueueSize\<close>.

  The code on the schedule of 1000 pushes that find room followed by one push whose wait
  is ended by a stop request: every call returns and the queue ends with 1001 items. On the
  schedule of one pop whose wait is ended by a stop request the empty queue is accessed.
  (Lemma \<open>queue_bound_without_cancellation\<close> shows that the bound does hold on every
  schedule in which no wait observes a stop request.)
\<close>

theorem C3_capacity_exceeded_when_cancelled:
  "run_queue (replicate 1000 (Push 0 False) @ [Push 7 True]) ([], []) =
     Inr (replicate 1000 0 @ [7], []) \<and>
   unat MaxQueueSize < length (replicate 1000 (0::u32) @ [7]) \<and>
   run_queue [Pop True] ([], []) = Inl EmptyQueueAccess"
proof -
  have "run_queue (replicate 1000 (Push 0 False)) ([], []) = Inr ([] @ replicate 1000 0, [])"
    by (rule run_queue_pushes) (simp add: MaxQueueSize_def)
  then show ?thesis
    by (simp add: run_queue_append SaveIntoQueue_cases GetFromQueue_cases MaxQueueSize_def)
qed

section \<open>Recording arrivals\<close>

text \<open>
  C4. For every value \<open>v\<close> in \<open>[1, N]\<close> and every sequence of \<open>ProcessNext\<close> calls, the slot
  of \<open>v\<close> is filled and the counter incremented at most once, by the first call with \<open>v\<close>;
  every later call with \<open>v\<close> is a silent no-op.

  Take any sequence \<open>before\<close> of calls on a fresh table of size \<open>n\<close>; it returns a state \<open>s\<close>.
  If \<open>v\<close> occurred in \<open>before\<close>, the slot of \<open>v\<close> holds \<open>v\<close> and a further call with \<open>v\<close>
  returns \<open>s\<close> itself: table, counter, stop state, clock reading and output are unchanged.
  If \<open>v\<close> did not occur, the slot is empty and the call fills exactly that slot with \<open>v\<close>
  and the next order, increments the counter by one (without wrapping) and prints one line.
\<close>

theorem C4_recorded_at_most_once:
  assumes "0 < v" "v \<le> n"
  shows "\<exists>s. run (TStorage_ctor now0 n) before = Inr s \<and>
     (if v \<in> set (elements before)
      then Number (Storage s ! unat (v - 1)) = v \<and> ProcessNext tid now v s = Inr s
      else Number (Storage s ! unat (v - 1)) = 0 \<and>
        (\<exists>s'. ProcessNext tid now v s = Inr s' \<and>
           Storage s' = (Storage s)
             [unat (v - 1) := \<lparr>Number = v, TimeToGenerate = word_of_int (now - Start s),
                                Order = Counter s + 1\<rparr>] \<and>
           Counter s' = Counter s + 1 \<and> unat (Counter s') = unat (Counter s) + 1 \<and>
           Cout s' = Cout s @ [(tid, v, Counter s + 1, word_of_int (now - Start s))]))"
proof -
  obtain s where s: "run (TStorage_ctor now0 n) before = Inr s" "TStorage_inv s"
    "StorageSize s = n"
    using run_ctor by blast
  have range: "0 < v" "v \<le> StorageSize s" using assms s(3) by simp_all
  have idx: "unat (v - 1) < length (Storage s)"
    using s(2) index_in_range(1) [OF range] by (simp add: TStorage_inv_def)
  have "v \<le> StorageSize (TStorage_ctor now0 n)" using assms(2) by (simp add: TStorage_ctor_def)
  from run_filled_iff [OF inv_ctor assms(1) this s(1)]
  have seen: "(Number (Storage s ! unat (v - 1)) \<noteq> 0) = (v \<in> set (elements before))"
    using index_in_range(1) [OF assms] by (simp add: ctor_empty)
  show ?thesis
  proof (cases "v \<in> set (elements before)")
    case True
    with seen have nonzero: "Number (Storage s ! unat (v - 1)) \<noteq> 0" by simp
    then have "Number (Storage s ! unat (v - 1)) = of_nat (Suc (unat (v - 1)))"
      using s(2) idx by (auto simp: TStorage_inv_def)
    then have "Number (Storage s ! unat (v - 1)) = v"
      using index_in_range(2) [OF range] by simp
    moreover have "ProcessNext tid now v s = Inr s"
      using s(2) range nonzero by (rule ProcessNext_duplicate)
    ultimately show ?thesis using s(1) True by simp
  next
    case False
    with seen have empty: "Number (Storage s ! unat (v - 1)) = 0" by simp
    have step: "ProcessNext tid now v s = Inr (fill tid now v s)"
      using s(2) range empty by (rule ProcessNext_fill)
    have "unat (Counter s) < unat (StorageSize s)"
      using s(2) idx empty by (rule counter_below_size)
    then have "unat (Counter s + 1) = unat (Counter s) + 1" by (simp add: counter_succ)
    with step empty s(1) False show ?thesis by (simp add: fill_def)
  qed
qed

text \<open>Table of size 3, value 2 after one earlier call with 2: the second call changes
  nothing.\<close>

theorem C4_recorded_at_most_once_witness:
  "(0::u32) < 2 \<and> (2::u32) \<le> 3 \<and>
   (\<exists>s. run (TStorage_ctor 0 3) [(0, 1, 2)] = Inr s \<and>
        Number (Storage s ! 1) = 2 \<and> ProcessNext 5 9 2 s = Inr s)"
  using C4_recorded_at_most_once [of 2 3 0 "[(0, 1, 2)]" 5 9]
  by (simp add: elements_def)

text \<open>
  C5, as stated: once the counter reaches \<open>N\<close>, cancellation is requested exactly once,
  after the \<open>N\<close>th distinct value is filled. It is not: on a table of size 1 the calls
  with 1 and again 1 execute \<open>request_stop()\<close> twice, because the test of the counter
  stands outside the test for an empty slot; and on the empty table, of size 0 (which
  \<open>main\<close> never constructs), the counter equals the size from the start, every call is
  ignored and no stop is ever requested.
\<close>

theorem C5_double_request_and_empty_table:
  "stop_calls (TStorage_ctor 0 1) [(0, 1, 1), (0, 2, 1)] = 2 \<and>
   run (TStorage_ctor 0 0) [(0, 1, 1), (0, 2, 0)] = Inr (TStorage_ctor 0 0) \<and>
   Counter (TStorage_ctor 0 0) = StorageSize (TStorage_ctor 0 0) \<and>
   \<not> StopSource (TStorage_ctor 0 0)"
  by (simp add: eval_simps request_stop_calls_def)

text \<open>
  C5, amended. For every table built by the constructor and every sequence of
  \<open>ProcessNext\<close> calls, the counter is the number of filled slots, which is the number of
  distinct values of \<open>[1, N]\<close> passed so far, and never exceeds \<open>N\<close>. The stop is
  requested exactly in the states of a table with \<open>N \<ge> 1\<close> whose counter is \<open>N\<close>: the
  stop state changes to requested in the call that records the \<open>N\<close>th distinct value and
  in no other, so once in a run at most, and it is never reset. \<open>request_stop()\<close> is
  executed by that call and again by every later call with a value of \<open>[1, N]\<close>.

  In the statement \<open>s\<close> is the state after any sequence \<open>calls\<close> and \<open>s'\<close> the state after
  one further call with \<open>element\<close>.
\<close>

theorem C5_stop_after_nth_distinct_value:
  "\<exists>s s'. run (TStorage_ctor now0 n) calls = Inr s \<and>
      ProcessNext tid now element s = Inr s' \<and>
      unat (Counter s) = length (filter filled (Storage s)) \<and>
      unat (Counter s) = card (set (filter (in_domain n) (elements calls))) \<and>
      unat (Counter s) \<le> unat n \<and>
      StopSource s = (n \<noteq> 0 \<and> Counter s = n) \<and>
      stop_transitions (TStorage_ctor now0 n) calls = (if StopSource s then 1 else 0) \<and>
      (StopSource s \<longrightarrow> StopSource s') \<and>
      (\<not> StopSource s \<and> StopSource s') =
        (unat (Counter s) + 1 = unat n \<and> in_domain n element \<and>
         element \<notin> set (elements calls)) \<and>
      request_stop_calls element s = (if in_domain n element \<and> StopSource s' then 1 else 0)"
proof -
  obtain s where s: "run (TStorage_ctor now0 n) calls = Inr s" "TStorage_inv s"
    "StorageSize s = n"
    using run_ctor by blast
  obtain s' where s': "ProcessNext tid now element s = Inr s'"
    using inv_ProcessNext [OF s(2)] by blast
  have "unat (Counter s) = length (filter filled (Storage s))"
    using s(2) by (simp add: TStorage_inv_def orders_length)
  moreover have "unat (Counter s) = card (set (filter (in_domain n) (elements calls)))"
    using s by (rule counter_counts_distinct_values)
  moreover have "unat (Counter s) \<le> unat n" using counter_le_size [OF s(2)] s(3) by simp
  moreover have "StopSource s = (n \<noteq> 0 \<and> Counter s = n)"
    using s(2,3) by (auto simp: TStorage_inv_def)
  moreover have "stop_transitions (TStorage_ctor now0 n) calls = (if StopSource s then 1 else 0)"
    using stop_transitions_count [OF s(1)] by (simp add: TStorage_ctor_def)
  moreover have "StopSource s \<longrightarrow> StopSource s'"
    using ProcessNext_stop_mono [OF s'] by simp
  moreover have "(\<not> StopSource s \<and> StopSource s') =
      (unat (Counter s) + 1 = unat n \<and> in_domain n element \<and>
       element \<notin> set (elements calls))"
    using s s' by (rule stop_switch_nth_value)
  moreover have "request_stop_calls element s =
      (if in_domain n element \<and> StopSource s' then 1 else 0)"
    using request_stop_calls_result [OF s(2) s'] s(3) by (simp add: in_domain_def)
  ultimately show ?thesis using s(1) s' by blast
qed

text \<open>Table of size 3. After 2, 2, 1 the counter is 2 and no stop is requested; the call
  with 3 requests it. After 2, 1, 3 the stop is requested; a further call with 2 leaves it
  requested and executes \<open>request_stop()\<close> once more.\<close>

theorem C5_stop_after_nth_distinct_value_witness:
  "(\<exists>s s'. run (TStorage_ctor 0 3) [(0, 1, 2), (0, 2, 2), (0, 3, 1)] = Inr s \<and>
      ProcessNext 0 4 3 s = Inr s' \<and> Counter s = 2 \<and> \<not> StopSource s \<and> StopSource s' \<and>
      request_stop_calls 3 s = 1) \<and>
   (\<exists>s s'. run (TStorage_ctor 0 3) [(0, 1, 2), (0, 2, 1), (0, 3, 3)] = Inr s \<and>
      ProcessNext 0 4 2 s = Inr s' \<and> Counter s = 3 \<and> StopSource s \<and> StopSource s' \<and>
      request_stop_calls 2 s = 1)"
proof (rule conjI)
  obtain s s' where run: "run (TStorage_ctor 0 3) [(0, 1, 2), (0, 2, 2), (0, 3, 1)] = Inr s"
    and step: "ProcessNext 0 4 3 s = Inr s'"
    and calls: "request_stop_calls 3 s = (if in_domain 3 3 \<and> StopSource s' then 1 else 0)"
    using C5_stop_after_nth_distinct_value [of 0 3 "[(0, 1, 2), (0, 2, 2), (0, 3, 1)]" 0 4 3]
    by blast
  from run have s: "Counter s = 2" "\<not> StopSource s" by (auto simp: eval_simps)
  from run step have "StopSource s'" by (auto simp: eval_simps)
  with calls have "request_stop_calls 3 s = 1" by (simp add: in_domain_def)
  with run step s \<open>StopSource s'\<close>
  show "\<exists>s s'. run (TStorage_ctor 0 3) [(0, 1, 2), (0, 2, 2), (0, 3, 1)] = Inr s \<and>
      ProcessNext 0 4 3 s = Inr s' \<and> Counter s = 2 \<and> \<not> StopSource s \<and> StopSource s' \<and>
      request_stop_calls 3 s = 1"
    by blast
next
  obtain s s' where run: "run (TStorage_ctor 0 3) [(0, 1, 2), (0, 2, 1), (0, 3, 3)] = Inr s"
    and step: "ProcessNext 0 4 2 s = Inr s'"
    and mono: "StopSource s \<longrightarrow> StopSource s'"
    and calls: "request_stop_calls 2 s = (if in_domain 3 2 \<and> StopSource s' then 1 else 0)"
    using C5_stop_after_nth_distinct_value [of 0 3 "[(0, 1, 2), (0, 2, 1), (0, 3, 3)]" 0 4 2]
    by blast
  from run have s: "Counter s = 3" "StopSource s" by (auto simp: eval_simps)
  with mono have "StopSource s'" by simp
  with calls have "request_stop_calls 2 s = 1" by (simp add: in_domain_def)
  with run step s \<open>StopSource s'\<close>
  show "\<exists>s s'. run (TStorage_ctor 0 3) [(0, 1, 2), (0, 2, 1), (0, 3, 3)] = Inr s \<and>
      ProcessNext 0 4 2 s = Inr s' \<and> Counter s = 3 \<and> StopSource s \<and> StopSource s' \<and>
      request_stop_calls 2 s = 1"
    by blast
qed

text \<open>
  C6. After any sequence of \<open>ProcessNext\<close> calls the orders stored in the filled slots are
  exactly \<open>1 .. Counter\<close>, each once; when all \<open>N\<close> slots are filled they form a permutation
  of \<open>1 .. N\<close>.

  The orders of the filled slots (read as numbers, in slot order) are a permutation of the
  list \<open>[1, .., Counter s]\<close>, the number of filled slots is \<open>Counter s\<close>, and if every slot
  is filled the orders are a permutation of \<open>[1, .., n]\<close>.
\<close>

theorem C6_orders_are_a_permutation:
  "\<exists>s. run (TStorage_ctor now0 n) calls = Inr s \<and>
      mset (orders s) = mset [1 ..< Suc (unat (Counter s))] \<and>
      length (filter filled (Storage s)) = unat (Counter s) \<and>
      (list_all filled (Storage s) \<longrightarrow> mset (orders s) = mset [1 ..< Suc (unat n)])"
proof -
  obtain s where s: "run (TStorage_ctor now0 n) calls = Inr s" "TStorage_inv s"
    "StorageSize s = n"
    using run_ctor by blast
  have ords: "mset (orders s) = mset [1 ..< Suc (unat (Counter s))]"
    using s(2) by (simp add: TStorage_inv_def)
  then have count: "length (filter filled (Storage s)) = unat (Counter s)" by (rule orders_length)
  have "list_all filled (Storage s) \<longrightarrow> unat (Counter s) = unat n"
  proof
    assume "list_all filled (Storage s)"
    then have "filter filled (Storage s) = Storage s" by (simp add: list_all_iff)
    with count s(2,3) show "unat (Counter s) = unat n" by (simp add: TStorage_inv_def)
  qed
  with ords count s(1) show ?thesis by auto
qed

text \<open>Table of size 3 fed 2, 2, 1, 3: all slots are filled and the orders, in slot order,
  are 2, 1, 3.\<close>

theorem C6_orders_are_a_permutation_witness:
  "\<exists>s. run (TStorage_ctor 0 3) [(0, 1, 2), (0, 2, 2), (0, 3, 1), (0, 4, 3)] = Inr s \<and>
      list_all filled (Storage s) \<and> orders s = [2, 1, 3] \<and>
      mset (orders s) = mset [1 ..< Suc (unat (3::u32))]"
  using C6_orders_are_a_permutation
    [of 0 3 "[(0, 1, 2), (0, 2, 2), (0, 3, 1), (0, 4, 3)]"]
  by (simp add: eval_simps orders_def filled_def)

text \<open>
  C7. A table of size 3 fed the values 2, 2, 1, 3 ends with value 1 at order 2, value 2 at
  order 1, value 3 at order 3, counter 3 and the stop requested; the stop is requested
  only once the 3 is recorded, and the second 2 has no effect.

  The calls are made by any threads \<open>a\<close>, \<open>b\<close>, \<open>c\<close>, \<open>d\<close> at any clock readings. The first
  equation is the final state, the second the state before the 3 arrives (stop not
  requested), the third says that the run with the duplicate 2 equals the run without it.
\<close>

theorem C7_example_2_2_1_3:
  "run (TStorage_ctor t0 3) [(a, t1, 2), (b, t2, 2), (c, t3, 1), (d, t4, 3)] =
     Inr \<lparr>Storage =
            [\<lparr>Number = 1, TimeToGenerate = word_of_int (t3 - t1), Order = 2\<rparr>,
             \<lparr>Number = 2, TimeToGenerate = word_of_int (t1 - t0), Order = 1\<rparr>,
             \<lparr>Number = 3, TimeToGenerate = word_of_int (t4 - t3), Order = 3\<rparr>],
          StorageSize = 3, Counter = 3, StopSource = True, Start = t4,
          Cout = [(a, 2, 1, word_of_int (t1 - t0)), (c, 1, 2, word_of_int (t3 - t1)),
                  (d, 3, 3, word_of_int (t4 - t3))]\<rparr> \<and>
   run (TStorage_ctor t0 3) [(a, t1, 2), (b, t2, 2), (c, t3, 1)] =
     Inr \<lparr>Storage =
            [\<lparr>Number = 1, TimeToGenerate = word_of_int (t3 - t1), Order = 2\<rparr>,
             \<lparr>Number = 2, TimeToGenerate = word_of_int (t1 - t0), Order = 1\<rparr>,
             \<lparr>Number = 0, TimeToGenerate = 0, Order = 0\<rparr>],
          StorageSize = 3, Counter = 2, StopSource = False, Start = t3,
          Cout = [(a, 2, 1, word_of_int (t1 - t0)), (c, 1, 2, word_of_int (t3 - t1))]\<rparr> \<and>
   run (TStorage_ctor t0 3) [(a, t1, 2), (b, t2, 2)] =
     run (TStorage_ctor t0 3) [(a, t1, 2)]"
  by (simp add: eval_simps)

text \<open>
  C8. A call of \<open>ProcessNext\<close> with a value outside \<open>[1, N]\<close> (0, or greater than \<open>N\<close>) is
  ignored without faulting: slots, counter and stop state are as before the call.

  In every state the call returns the state it was given, and a sequence of calls with
  such a call anywhere in it has the same outcome as the sequence without it.
\<close>

theorem C8_out_of_domain_ignored:
  assumes "v = 0 \<or> StorageSize s < v"
  shows "ProcessNext tid now v s = Inr s \<and>
         run s (calls1 @ (tid, now, v) # calls2) = run s (calls1 @ calls2)"
proof -
  have "run s (calls1 @ (tid, now, v) # calls2) = run s (calls1 @ calls2)"
  proof (cases "run s calls1")
    case (Inl e)
    then show ?thesis by (simp add: run_append)
  next
    case (Inr s1)
    then have "StorageSize s1 = StorageSize s" by (rule run_StorageSize)
    with assms have "v = 0 \<or> StorageSize s1 < v" by simp
    then have "ProcessNext tid now v s1 = Inr s1" by (rule ProcessNext_outside)
    with Inr show ?thesis by (simp add: run_append)
  qed
  moreover have "ProcessNext tid now v s = Inr s" using assms by (rule ProcessNext_outside)
  ultimately show ?thesis by simp
qed

text \<open>Table of size 3 and the value 4.\<close>

theorem C8_out_of_domain_ignored_witness:
  "StorageSize (TStorage_ctor 0 3) < 4 \<and>
   (ProcessNext 0 2 4 (TStorage_ctor 0 3) = Inr (TStorage_ctor 0 3) \<and>
    run (TStorage_ctor 0 3) ([(0, 1, 2)] @ (0, 2, 4) # [(0, 3, 1)]) =
      run (TStorage_ctor 0 3) ([(0, 1, 2)] @ [(0, 3, 1)]))"
proof -
  have large: "StorageSize (TStorage_ctor 0 3) < 4" by (simp add: TStorage_ctor_def)
  then have "(4::u32) = 0 \<or> StorageSize (TStorage_ctor 0 3) < 4" by simp
  then have "ProcessNext 0 2 4 (TStorage_ctor 0 3) = Inr (TStorage_ctor 0 3) \<and>
    run (TStorage_ctor 0 3) ([(0, 1, 2)] @ (0, 2, 4) # [(0, 3, 1)]) =
      run (TStorage_ctor 0 3) ([(0, 1, 2)] @ [(0, 3, 1)])"
    by (rule C8_out_of_domain_ignored)
  with large show ?thesis by (rule conjI)
qed

section \<open>Invalid target sizes\<close>

text \<open>
  C9, as stated: constructing the storage with a non-positive or out-of-bounds target size
  fails at construction time. It does not: the constructor has no check. With
  \<open>RAND_MAX = 32767\<close>, \<open>main\<close> rejects the sizes 32768 and 0 with "Bad argument", yet the
  constructor given 32768 completes, whenever its vector can be allocated, with a table of
  32768 slots; and for the size 0 its initialisers build the empty table.
\<close>

theorem C9_constructor_accepts_invalid_size:
  "main_setup 32767 True True 0 (Parsed 32768) = Inl (Returns Bad_argument 0) \<and>
   TStorage_construct True 0 32768 = Inr (TStorage_ctor 0 32768) \<and>
   StorageSize (TStorage_ctor 0 32768) = 32768 \<and>
   length (Storage (TStorage_ctor 0 32768)) = 32768 \<and>
   main_setup 32767 True True 0 (Parsed 0) = Inl (Returns Bad_argument 0) \<and>
   TStorage_ctor 0 0 =
     \<lparr>Storage = [], StorageSize = 0, Counter = 0, StopSource = False, Start = 0, Cout = []\<rparr>"
  by (simp add: main_setup_def TStorage_ctor_def TStorage_construct_def)

text \<open>
  C9, amended. \<open>main\<close> checks the target size before it constructs anything and before it
  starts a thread: a missing argument prints "No arguments provided.", an argument that
  is not a number or is outside \<open>[1, RAND_MAX]\<close> prints "Bad argument", and \<open>main\<close>
  returns 0 in each case, whatever the constructors would have done. For a size \<open>k\<close> in
  \<open>[1, RAND_MAX]\<close> it constructs the empty queue, a storage of \<open>k\<close> empty slots and a
  randomizer over \<open>[1, k]\<close>; if a constructor throws, the handler prints "Bad argument"
  and \<open>main\<close> returns 0. The constructor of the storage checks nothing: it completes
  exactly when its vector can be allocated and the size is not 0 (where its conversion is
  undefined), then with a table of as many slots as the size says. \<open>RAND_MAX\<close> is an
  \<open>int\<close>.
\<close>

theorem C9_main_validates_before_construction:
  assumes "rand_max \<le> 2147483647"
  shows "(arg = NoArgument \<longrightarrow>
            main_setup rand_max allocates device_opens now arg =
              Inl (Returns No_arguments_provided 0)) \<and>
         (arg = NotANumber \<longrightarrow>
            main_setup rand_max allocates device_opens now arg = Inl (Returns Bad_argument 0)) \<and>
         (\<forall>k. arg = Parsed k \<and> (k \<le> 0 \<or> rand_max < k) \<longrightarrow>
            main_setup rand_max allocates device_opens now arg = Inl (Returns Bad_argument 0)) \<and>
         (\<forall>k. arg = Parsed k \<and> 0 < k \<and> k \<le> rand_max \<longrightarrow>
            main_setup rand_max allocates device_opens now arg =
              (if allocates \<and> device_opens
               then Inr ([], TStorage_ctor now (word_of_int k), \<lparr>Dist = (1, word_of_int k)\<rparr>)
               else Inl (Returns Bad_argument 0)) \<and>
            uint (StorageSize (TStorage_ctor now (word_of_int k))) = k \<and>
            int (length (Storage (TStorage_ctor now (word_of_int k)))) = k) \<and>
         (\<exists>s. TStorage_construct allocates now n = Inr s) = (allocates \<and> n \<noteq> 0) \<and>
         (allocates \<and> n \<noteq> 0 \<longrightarrow>
            TStorage_construct allocates now n = Inr (TStorage_ctor now n) \<and>
            StorageSize (TStorage_ctor now n) = n \<and>
            length (Storage (TStorage_ctor now n)) = unat n)"
proof -
  have accepted: "main_setup rand_max allocates device_opens now (Parsed k) =
      (if allocates \<and> device_opens
       then Inr ([], TStorage_ctor now (word_of_int k), \<lparr>Dist = (1, word_of_int k)\<rparr>)
       else Inl (Returns Bad_argument 0)) \<and>
      uint (StorageSize (TStorage_ctor now (word_of_int k))) = k \<and>
      int (length (Storage (TStorage_ctor now (word_of_int k)))) = k"
    if k: "0 < k" "k \<le> rand_max" for k
  proof -
    note size = size_of_argument [OF assms k]
    have storage: "TStorage_construct b now (word_of_int k) =
        (if b then Inr (TStorage_ctor now (word_of_int k)) else Inl Throws)" for b
      using size(2) by (simp add: TStorage_construct_def)
    have rzr: "TRandomizer_ctor b 1 (word_of_int k) =
        (if b then Inr \<lparr>Dist = (1, word_of_int k)\<rparr> else Inl Throws)" for b
      using size(2) by (simp add: TRandomizer_ctor_def)
    have "main_setup rand_max allocates device_opens now (Parsed k) =
        (if allocates \<and> device_opens
         then Inr ([], TStorage_ctor now (word_of_int k), \<lparr>Dist = (1, word_of_int k)\<rparr>)
         else Inl (Returns Bad_argument 0))"
      using k by (simp add: main_setup_def storage rzr)
    moreover have "uint (StorageSize (TStorage_ctor now (word_of_int k))) = k"
      using size(1) by (simp add: TStorage_ctor_def)
    moreover have "int (unat (word_of_int k :: u32)) = k" using size(1) by simp
    then have "int (length (Storage (TStorage_ctor now (word_of_int k)))) = k"
      by (simp add: TStorage_ctor_def)
    ultimately show ?thesis by blast
  qed
  show ?thesis
    using accepted
    by (auto simp: main_setup_def TStorage_construct_def TStorage_ctor_def)
qed

text \<open>\<open>RAND_MAX = 32767\<close>: the size 3 is accepted and rejected when the allocation
  throws, the size 40000 and a non-number are rejected with "Bad argument", a missing
  argument with "No arguments provided."; the constructor alone accepts the size 40000.\<close>

theorem C9_main_validates_before_construction_witness:
  "(32767::int) \<le> 2147483647 \<and>
   main_setup 32767 True True 0 (Parsed 3) = Inr ([], TStorage_ctor 0 3, \<lparr>Dist = (1, 3)\<rparr>) \<and>
   main_setup 32767 False True 0 (Parsed 3) = Inl (Returns Bad_argument 0) \<and>
   main_setup 32767 True True 0 (Parsed 40000) = Inl (Returns Bad_argument 0) \<and>
   main_setup 32767 True True 0 NotANumber = Inl (Returns Bad_argument 0) \<and>
   main_setup 32767 True True 0 NoArgument = Inl (Returns No_arguments_provided 0) \<and>
   TStorage_construct True 0 40000 = Inr (TStorage_ctor 0 40000)"
  using C9_main_validates_before_construction [of 32767 "Parsed 3" True True 0 40000]
    C9_main_validates_before_construction [of 32767 "Parsed 3" False True 0 40000]
    C9_main_validates_before_construction [of 32767 "Parsed 40000" True True 0 40000]
    C9_main_validates_before_construction [of 32767 NotANumber True True 0 40000]
    C9_main_validates_before_construction [of 32767 NoArgument True True 0 40000]
  by simp

section \<open>Slots and their values\<close>

text \<open>
  C10. After any sequence of \<open>ProcessNext\<close> calls on a table of size \<open>N\<close>, the slot at
  index \<open>i < N\<close> holds \<open>Number\<close> 0 (empty) or exactly \<open>i + 1\<close>; the value 0 never appears as
  a recorded value.

  Every sequence of calls returns a state whose vector still has \<open>n\<close> slots, and the
  \<open>Number\<close> of slot \<open>i\<close> is 0 or the word \<open>i + 1\<close>, whose value is the number \<open>i + 1\<close> and
  so is not 0.
\<close>

theorem C10_slot_holds_zero_or_its_value:
  assumes "i < unat n"
  shows "\<exists>s. run (TStorage_ctor now0 n) calls = Inr s \<and> length (Storage s) = unat n \<and>
      (Number (Storage s ! i) = 0 \<or>
       Number (Storage s ! i) = of_nat (i + 1) \<and> unat (Number (Storage s ! i)) = i + 1)"
proof -
  obtain s where s: "run (TStorage_ctor now0 n) calls = Inr s" "TStorage_inv s"
    "StorageSize s = n"
    using run_ctor by blast
  have len: "length (Storage s) = unat n" using s(2,3) by (simp add: TStorage_inv_def)
  have "unat n < 2 ^ 32" using unsigned_less [of n, where 'a = nat] by simp
  with assms have small: "i + 1 < 2 ^ 32" by simp
  have "unat (of_nat (i + 1) :: u32) = (i + 1) mod 2 ^ LENGTH(32)" by (rule unat_of_nat)
  also have "\<dots> = i + 1" using small by simp
  finally have "unat (of_nat (i + 1) :: u32) = i + 1" .
  moreover have "Number (Storage s ! i) = 0 \<or> Number (Storage s ! i) = of_nat (i + 1)"
    using s(2) assms len by (simp add: TStorage_inv_def)
  ultimately show ?thesis using s(1) len by auto
qed

text \<open>Table of size 3 after the calls with 2 and with 0: slot 1 holds 2, slot 0 is
  empty.\<close>

theorem C10_slot_holds_zero_or_its_value_witness:
  "(1::nat) < unat (3::u32) \<and>
   (\<exists>s. run (TStorage_ctor 0 3) [(0, 1, 2), (0, 2, 0)] = Inr s \<and> length (Storage s) = 3 \<and>
      Number (Storage s ! 1) = 2 \<and> Number (Storage s ! 0) = 0)"
  using C10_slot_holds_zero_or_its_value [of 1 3 0 "[(0, 1, 2), (0, 2, 0)]"]
  by (simp add: eval_simps)

end
